theory Spec2Isabelle
  imports Complex_Main "HOL-Library.Sublist"
begin

section \<open>Peptide-match evaluation (pynovo/metrics/evaluate.py)\<close>

text \<open>
  Tokens are Python strings, modelled as \<open>string\<close>. The mass table \<open>aa_dict\<close> is a Python
  dict from tokens to floats; it is modelled as an association list in insertion order
  (the tokenizer sorts the keys with a stable sort, so their order is part of the input).
  Masses, tolerances and scores are Python floats; they are modelled as exact reals, so
  the theorems below are about the algorithm under exact arithmetic (no rounding, no
  infinities, no NaN). A statement that floats overflowing to \<open>inf\<close> would break (the
  identity of self-alignment) carries a bound on the masses that keeps the sums of the code
  finite.
\<close>

type_synonym aa_dict = "(string \<times> real) list"

definition dict_keys :: "aa_dict \<Rightarrow> string list" where
  "dict_keys d = map fst d"

text \<open>\<open>aa_dict.get(k, dflt)\<close>.\<close>

definition dict_get :: "aa_dict \<Rightarrow> string \<Rightarrow> real \<Rightarrow> real" where
  "dict_get d k dflt = (case map_of d k of Some v \<Rightarrow> v | None \<Rightarrow> dflt)"

text \<open>
  \<open>mass_diff\<close> is imported from the library \<open>spectrum_utils.utils\<close>:
  \<^verbatim>\<open>return mz1 - mz2 if mode_is_da else (mz1 - mz2) / mz2 * 10 ** 6\<close>.
  The aligner only ever calls it with \<open>mode_is_da = True\<close>.
\<close>

definition mass_diff :: "real \<Rightarrow> real \<Rightarrow> bool \<Rightarrow> real" where
  "mass_diff mz1 mz2 mode_is_da =
     (if mode_is_da then mz1 - mz2 else (mz1 - mz2) / mz2 * 10 ^ 6)"

subsection \<open>Tokenizer: \<open>split_peptide\<close>\<close>

datatype error =
    TokenizationError string    \<comment> \<open>\<open>ValueError\<close>: unmatched characters in the peptide\<close>
  | ConfigurationError string   \<comment> \<open>\<open>ValueError\<close>: PTM type not in \<open>aa_dict\<close>\<close>
  | AssertionError              \<comment> \<open>\<open>assert len(scores) == len(pep_match_bool_list)\<close>\<close>
  | AucError                    \<comment> \<open>\<open>ValueError\<close> raised by \<open>sklearn.metrics.auc\<close>\<close>

text \<open>\<open>sorted(aa_list, key=len, reverse=True)\<close>: a stable sort by descending length.\<close>

definition regex_alternatives :: "aa_dict \<Rightarrow> string list" where
  "regex_alternatives d = sort_key (\<lambda>k. - int (length k)) (dict_keys d)"

text \<open>
  An alternation of escaped literals tried at the start of \<open>s\<close>: the first alternative
  that is a prefix of \<open>s\<close> matches.
\<close>

fun match_at :: "string list \<Rightarrow> string \<Rightarrow> string option" where
  "match_at [] s = None"
| "match_at (k # ks) s = (if prefix k s then Some k else match_at ks s)"

text \<open>
  \<open>re.findall(pattern, s)\<close> for such an alternation: scan left to right; a non-empty
  match is recorded and consumed, an empty match (possible only when the empty string is
  a key) is recorded and the scan moves one character on, and where nothing matches the
  scan moves one character on.
\<close>

function findall :: "string list \<Rightarrow> string \<Rightarrow> string list" where
  "findall alts s =
     (case match_at alts s of
        None \<Rightarrow> (case s of [] \<Rightarrow> [] | c # cs \<Rightarrow> findall alts cs)
      | Some k \<Rightarrow>
          (if k = [] then (case s of [] \<Rightarrow> [[]] | c # cs \<Rightarrow> [] # findall alts cs)
           else k # findall alts (drop (length k) s)))"
  by pat_completeness auto
termination
proof (relation "measure (\<lambda>(alts, s). length s)")
  show "wf (measure (\<lambda>(alts, s). length s))" by simp
next
  fix alts :: "string list" and s :: string and c cs
  assume "s = c # cs"
  then show "((alts, cs), (alts, s)) \<in> measure (\<lambda>(alts, s). length s)" by simp
next
  fix alts :: "string list" and s :: string and k c cs
  assume "s = c # cs"
  then show "((alts, cs), (alts, s)) \<in> measure (\<lambda>(alts, s). length s)" by simp
next
  fix alts :: "string list" and s k :: string
  assume m: "match_at alts s = Some k" and ne: "k \<noteq> []"
  have "match_at ks s = Some k \<Longrightarrow> prefix k s" for ks
    by (induction ks) (auto split: if_splits)
  from this [OF m] ne have "s \<noteq> []" by auto
  with ne show "((alts, drop (length k) s), (alts, s)) \<in> measure (\<lambda>(alts, s). length s)"
    by simp
qed

declare findall.simps [simp del]

definition split_peptide :: "string \<Rightarrow> aa_dict \<Rightarrow> error + string list" where
  "split_peptide peptide d =
     (let parts = findall (regex_alternatives d) peptide;
          parts = filter (\<lambda>part. part \<noteq> []) parts
      in if concat parts \<noteq> peptide then Inl (TokenizationError peptide)
         else Inr parts)"

text \<open>
  The segmentation that the specification describes, for comparison with
  \<open>split_peptide\<close>: "greedily consume the input left-to-right matching the longest
  applicable key at each position"; a character at which no key applies stays
  unconsumed. \<open>longest_match_length\<close> is the length of the longest key that is a prefix
  of \<open>s\<close> (0 when no non-empty key is), and \<open>greedy_segment\<close> returns the consumed
  tokens and the unconsumed characters.
\<close>

definition longest_match_length :: "string list \<Rightarrow> string \<Rightarrow> nat" where
  "longest_match_length keys s = fold max (map length (filter (\<lambda>k. prefix k s) keys)) 0"

function greedy_segment :: "string list \<Rightarrow> string \<Rightarrow> string list \<times> string" where
  "greedy_segment keys s =
     (if s = [] then ([], [])
      else if longest_match_length keys s = 0
           then (case greedy_segment keys (tl s) of (ts, u) \<Rightarrow> (ts, hd s # u))
           else (case greedy_segment keys (drop (longest_match_length keys s) s) of
                   (ts, u) \<Rightarrow> (take (longest_match_length keys s) s # ts, u)))"
  by pat_completeness auto
termination
  by (relation "measure (\<lambda>(keys, s). length s)") auto

declare greedy_segment.simps [simp del]

subsection \<open>Pairwise aligner: \<open>aa_match_prefix\<close> and \<open>aa_match\<close>\<close>

text \<open>
  The three boolean arrays \<open>aa_matches\<close>, \<open>ptm_matches_1\<close>, \<open>ptm_matches_2\<close> that the
  loops update in place.
\<close>

type_synonym arrays = "bool list \<times> bool list \<times> bool list"

text \<open>\<open>np.zeros(n, np.bool_)\<close>.\<close>

definition zeros :: "nat \<Rightarrow> bool list" where
  "zeros n = replicate n False"

text \<open>\<open>a.all()\<close> and \<open>a.sum()\<close> of a boolean array.\<close>

definition all_true :: "bool list \<Rightarrow> bool" where
  "all_true a = list_all (\<lambda>b. b) a"

definition count_true :: "bool list \<Rightarrow> nat" where
  "count_true a = length (filter (\<lambda>b. b) a)"

text \<open>
  The body of both \<open>while\<close> loops when the cumulative masses agree: write the match flag
  at \<open>idx\<close> and, when it is set, the two PTM flags.
\<close>

definition commit :: "string list \<Rightarrow> real \<Rightarrow> nat \<Rightarrow> real \<Rightarrow> real \<Rightarrow> string \<Rightarrow> string \<Rightarrow> arrays \<Rightarrow> arrays" where
  "commit ptm_list ind_mass_threshold idx aa_mass1 aa_mass2 t1 t2 arrs =
     (case arrs of (aa_matches, ptm_matches_1, ptm_matches_2) \<Rightarrow>
        let aa_matches = aa_matches[idx := \<bar>mass_diff aa_mass1 aa_mass2 True\<bar> < ind_mass_threshold]
        in if aa_matches ! idx
           then (aa_matches, ptm_matches_1[idx := t1 \<in> set ptm_list],
                 ptm_matches_2[idx := t2 \<in> set ptm_list])
           else (aa_matches, ptm_matches_1, ptm_matches_2))"

text \<open>The forward \<open>while\<close> loop of \<open>aa_match_prefix\<close> (lines 63 to 82).\<close>

function prefix_loop ::
  "string list \<Rightarrow> string list \<Rightarrow> aa_dict \<Rightarrow> string list \<Rightarrow> real \<Rightarrow> real \<Rightarrow>
   nat \<Rightarrow> nat \<Rightarrow> real \<Rightarrow> real \<Rightarrow> arrays \<Rightarrow> arrays" where
  "prefix_loop peptide1 peptide2 d ptm_list cum_mass_threshold ind_mass_threshold
       i1 i2 cum_mass1 cum_mass2 arrs =
     (if i1 < length peptide1 \<and> i2 < length peptide2 then
        (if \<bar>mass_diff (cum_mass1 + dict_get d (peptide1 ! i1) 0)
                       (cum_mass2 + dict_get d (peptide2 ! i2) 0) True\<bar> < cum_mass_threshold
         then prefix_loop peptide1 peptide2 d ptm_list cum_mass_threshold ind_mass_threshold
                (i1 + 1) (i2 + 1)
                (cum_mass1 + dict_get d (peptide1 ! i1) 0)
                (cum_mass2 + dict_get d (peptide2 ! i2) 0)
                (commit ptm_list ind_mass_threshold (max i1 i2)
                   (dict_get d (peptide1 ! i1) 0) (dict_get d (peptide2 ! i2) 0)
                   (peptide1 ! i1) (peptide2 ! i2) arrs)
         else if cum_mass2 + dict_get d (peptide2 ! i2) 0 > cum_mass1 + dict_get d (peptide1 ! i1) 0
         then prefix_loop peptide1 peptide2 d ptm_list cum_mass_threshold ind_mass_threshold
                (i1 + 1) i2 (cum_mass1 + dict_get d (peptide1 ! i1) 0) cum_mass2 arrs
         else prefix_loop peptide1 peptide2 d ptm_list cum_mass_threshold ind_mass_threshold
                i1 (i2 + 1) cum_mass1 (cum_mass2 + dict_get d (peptide2 ! i2) 0) arrs)
      else arrs)"
  by pat_completeness auto
termination
  by (relation "measure (\<lambda>(p1, p2, d, ptm, ct, it, i1, i2, c1, c2, arrs).
                   (length p1 - i1) + (length p2 - i2))") auto

declare prefix_loop.simps [simp del]

definition aa_match_prefix ::
  "string list \<Rightarrow> string list \<Rightarrow> aa_dict \<Rightarrow> string list \<Rightarrow> real \<Rightarrow> real \<Rightarrow>
   bool list \<times> bool list \<times> bool list \<times> bool" where
  "aa_match_prefix peptide1 peptide2 d ptm_list cum_mass_threshold ind_mass_threshold =
     (let n = max (length peptide1) (length peptide2)
      in case prefix_loop peptide1 peptide2 d ptm_list cum_mass_threshold ind_mass_threshold
                0 0 0 0 (zeros n, zeros n, zeros n) of
           (aa_matches, ptm_matches_1, ptm_matches_2) \<Rightarrow>
             (aa_matches, ptm_matches_1, ptm_matches_2, all_true aa_matches))"

text \<open>
  \<open>np.argwhere(~aa_matches)\<close>: the indices of the false entries, in increasing order.
  \<open>aa_match\<close> takes element 0 of it, after having returned when all entries are true.
\<close>

definition argwhere_not :: "bool list \<Rightarrow> nat list" where
  "argwhere_not a = filter (\<lambda>i. \<not> a ! i) [0..<length a]"

text \<open>
  The backward \<open>while\<close> loop of \<open>aa_match\<close> (lines 134 to 153). The indices start at
  \<open>len - 1\<close> and run down to \<open>-1\<close>, so they are integers.
\<close>

function suffix_loop ::
  "string list \<Rightarrow> string list \<Rightarrow> aa_dict \<Rightarrow> string list \<Rightarrow> real \<Rightarrow> real \<Rightarrow> nat \<Rightarrow>
   int \<Rightarrow> int \<Rightarrow> real \<Rightarrow> real \<Rightarrow> arrays \<Rightarrow> arrays" where
  "suffix_loop peptide1 peptide2 d ptm_list cum_mass_threshold ind_mass_threshold i_stop
       i1 i2 cum_mass1 cum_mass2 arrs =
     (if i1 \<ge> int i_stop \<and> i2 \<ge> int i_stop then
        (if \<bar>mass_diff (cum_mass1 + dict_get d (peptide1 ! nat i1) 0)
                       (cum_mass2 + dict_get d (peptide2 ! nat i2) 0) True\<bar> < cum_mass_threshold
         then suffix_loop peptide1 peptide2 d ptm_list cum_mass_threshold ind_mass_threshold i_stop
                (i1 - 1) (i2 - 1)
                (cum_mass1 + dict_get d (peptide1 ! nat i1) 0)
                (cum_mass2 + dict_get d (peptide2 ! nat i2) 0)
                (commit ptm_list ind_mass_threshold (nat (max i1 i2))
                   (dict_get d (peptide1 ! nat i1) 0) (dict_get d (peptide2 ! nat i2) 0)
                   (peptide1 ! nat i1) (peptide2 ! nat i2) arrs)
         else if cum_mass2 + dict_get d (peptide2 ! nat i2) 0
                   > cum_mass1 + dict_get d (peptide1 ! nat i1) 0
         then suffix_loop peptide1 peptide2 d ptm_list cum_mass_threshold ind_mass_threshold i_stop
                (i1 - 1) i2 (cum_mass1 + dict_get d (peptide1 ! nat i1) 0) cum_mass2 arrs
         else suffix_loop peptide1 peptide2 d ptm_list cum_mass_threshold ind_mass_threshold i_stop
                i1 (i2 - 1) cum_mass1 (cum_mass2 + dict_get d (peptide2 ! nat i2) 0) arrs)
      else arrs)"
  by pat_completeness auto
termination
  by (relation "measure (\<lambda>(p1, p2, d, ptm, ct, it, i_stop, i1, i2, c1, c2, arrs).
                   nat (i1 + 1) + nat (i2 + 1))") auto

declare suffix_loop.simps [simp del]

text \<open>
  \<open>aa_match\<close> returns \<open>(aa_matches, pep_match, ptm_matches_1, ptm_matches_2)\<close>. The
  parameter \<open>mode\<close> is accepted and not used.
\<close>

definition aa_match ::
  "string list \<Rightarrow> string list \<Rightarrow> aa_dict \<Rightarrow> string list \<Rightarrow> real \<Rightarrow> real \<Rightarrow> string \<Rightarrow>
   bool list \<times> bool \<times> bool list \<times> bool list" where
  "aa_match peptide1 peptide2 d ptm_list cum_mass_threshold ind_mass_threshold mode =
     (case aa_match_prefix peptide1 peptide2 d ptm_list cum_mass_threshold ind_mass_threshold of
        (aa_matches, ptm_matches_1, ptm_matches_2, pep_match) \<Rightarrow>
          if pep_match then (aa_matches, pep_match, ptm_matches_1, ptm_matches_2)
          else
            let i_stop = hd (argwhere_not aa_matches)
            in case suffix_loop peptide1 peptide2 d ptm_list cum_mass_threshold
                      ind_mass_threshold i_stop
                      (int (length peptide1) - 1) (int (length peptide2) - 1) 0 0
                      (aa_matches, ptm_matches_1, ptm_matches_2) of
                 (aa_matches, ptm_matches_1, ptm_matches_2) \<Rightarrow>
                   (aa_matches, all_true aa_matches, ptm_matches_1, ptm_matches_2))"

subsection \<open>Batch evaluator: \<open>aa_match_batch\<close>\<close>

text \<open>
  An element of \<open>peptides1\<close> or \<open>peptides2\<close> is either a raw string, tokenized on the
  way in (\<open>isinstance(peptide, str)\<close>), or an already tokenized list.
\<close>

datatype peptide_in = Str string | Tokens "string list"

definition tokenize_if_str :: "peptide_in \<Rightarrow> aa_dict \<Rightarrow> error + string list" where
  "tokenize_if_str p d = (case p of Str s \<Rightarrow> split_peptide s d | Tokens ts \<Rightarrow> Inr ts)"

text \<open>One entry of \<open>aa_matches_batch\<close>, in the order \<open>aa_match\<close> returns it.\<close>

type_synonym verdict = "bool list \<times> bool \<times> bool list \<times> bool list"

text \<open>The 5-tuple that \<open>aa_match_batch\<close> builds up and returns.\<close>

record tally =
  aa_matches_batch :: "verdict list"
  n_aa1 :: nat
  n_aa2 :: nat
  n_ptm_1 :: nat
  n_ptm_2 :: nat

text \<open>The first loop (lines 211 to 213): the first PTM that is no key of the table raises.\<close>

fun check_ptms :: "string list \<Rightarrow> aa_dict \<Rightarrow> error option" where
  "check_ptms [] d = None"
| "check_ptms (ptm # rest) d =
     (if ptm \<notin> set (dict_keys d) then Some (ConfigurationError ptm) else check_ptms rest d)"

definition ptm_mask :: "string list \<Rightarrow> string list \<Rightarrow> nat list" where
  "ptm_mask ptm_list peptide = map (\<lambda>aa. if aa \<in> set ptm_list then 1 else 0) peptide"

text \<open>
  The second loop (lines 215 to 242) over \<open>zip(peptides1, peptides2)\<close>. The aligner that
  line 233 calls is a parameter \<open>aligner\<close> of the model, so that a theorem can say that
  a result does not depend on it; \<open>aa_match_batch\<close> below passes \<open>aa_match\<close>.
\<close>

fun batch_loop ::
  "(string list \<Rightarrow> string list \<Rightarrow> aa_dict \<Rightarrow> string list \<Rightarrow> real \<Rightarrow> real \<Rightarrow> string \<Rightarrow> verdict) \<Rightarrow>
   peptide_in list \<Rightarrow> peptide_in list \<Rightarrow> aa_dict \<Rightarrow> string list \<Rightarrow> real \<Rightarrow> real \<Rightarrow> string \<Rightarrow>
   tally \<Rightarrow> error + tally" where
  "batch_loop aligner (p1 # peptides1) (p2 # peptides2) d ptm_list
       cum_mass_threshold ind_mass_threshold mode t =
     (case tokenize_if_str p1 d of
        Inl e \<Rightarrow> Inl e
      | Inr peptide1 \<Rightarrow>
         (case tokenize_if_str p2 d of
            Inl e \<Rightarrow> Inl e
          | Inr peptide2 \<Rightarrow>
              batch_loop aligner peptides1 peptides2 d ptm_list
                cum_mass_threshold ind_mass_threshold mode
                \<lparr> aa_matches_batch = aa_matches_batch t @
                     [if length peptide2 = 0
                      then (zeros (length peptide1), False,
                            zeros (length peptide1), zeros (length peptide1))
                      else aligner peptide1 peptide2 d ptm_list
                             cum_mass_threshold ind_mass_threshold mode],
                   n_aa1 = n_aa1 t + length peptide1,
                   n_aa2 = n_aa2 t + length peptide2,
                   n_ptm_1 = n_ptm_1 t + sum_list (ptm_mask ptm_list peptide1),
                   n_ptm_2 = n_ptm_2 t + sum_list (ptm_mask ptm_list peptide2) \<rparr>))"
| "batch_loop aligner [] peptides2 d ptm_list cum_mass_threshold ind_mass_threshold mode t = Inr t"
| "batch_loop aligner peptides1 [] d ptm_list cum_mass_threshold ind_mass_threshold mode t = Inr t"

definition empty_tally :: tally where
  "empty_tally = \<lparr> aa_matches_batch = [], n_aa1 = 0, n_aa2 = 0, n_ptm_1 = 0, n_ptm_2 = 0 \<rparr>"

definition aa_match_batch_with ::
  "(string list \<Rightarrow> string list \<Rightarrow> aa_dict \<Rightarrow> string list \<Rightarrow> real \<Rightarrow> real \<Rightarrow> string \<Rightarrow> verdict) \<Rightarrow>
   peptide_in list \<Rightarrow> peptide_in list \<Rightarrow> aa_dict \<Rightarrow> string list \<Rightarrow> real \<Rightarrow> real \<Rightarrow> string \<Rightarrow>
   error + tally" where
  "aa_match_batch_with aligner peptides1 peptides2 d ptm_list
       cum_mass_threshold ind_mass_threshold mode =
     (case check_ptms ptm_list d of
        Some e \<Rightarrow> Inl e
      | None \<Rightarrow> batch_loop aligner peptides1 peptides2 d ptm_list
                  cum_mass_threshold ind_mass_threshold mode empty_tally)"

definition aa_match_batch ::
  "peptide_in list \<Rightarrow> peptide_in list \<Rightarrow> aa_dict \<Rightarrow> string list \<Rightarrow> real \<Rightarrow> real \<Rightarrow> string \<Rightarrow>
   error + tally" where
  "aa_match_batch = aa_match_batch_with aa_match"

subsection \<open>Metric aggregator: \<open>aa_match_metrics\<close>\<close>

record metrics =
  aa_precision :: real
  aa_recall :: real
  pep_precision :: real
  ptm_recall :: real
  ptm_precision :: real
  curve_auc :: real

text \<open>\<open>np.cumsum\<close> of a list of booleans, and \<open>np.diff\<close>.\<close>

fun cumsum_from :: "nat \<Rightarrow> bool list \<Rightarrow> nat list" where
  "cumsum_from acc [] = []"
| "cumsum_from acc (b # bs) =
     (let acc = acc + (if b then 1 else 0) in acc # cumsum_from acc bs)"

definition cumsum :: "bool list \<Rightarrow> nat list" where
  "cumsum bs = cumsum_from 0 bs"

fun np_diff :: "real list \<Rightarrow> real list" where
  "np_diff (a # b # xs) = (b - a) # np_diff (b # xs)"
| "np_diff xs = []"

text \<open>\<open>np.trapezoid(y, x)\<close>: the sum of \<open>diff(x) * (y[1:] + y[:-1]) / 2\<close>.\<close>

fun trapezoid :: "real list \<Rightarrow> real list \<Rightarrow> real" where
  "trapezoid (y0 # y1 # ys) (x0 # x1 # xs) =
     (x1 - x0) * (y1 + y0) / 2 + trapezoid (y1 # ys) (x1 # xs)"
| "trapezoid ys xs = 0"

text \<open>
  \<open>sklearn.metrics.auc(x, y)\<close>: it raises for fewer than two points and for an \<open>x\<close>
  that is neither increasing nor decreasing, and integrates by the trapezoidal rule.
\<close>

definition auc :: "real list \<Rightarrow> real list \<Rightarrow> error + real" where
  "auc x y =
     (if length x \<noteq> length y \<or> length x < 2 then Inl AucError
      else if list_ex (\<lambda>dx. dx < 0) (np_diff x)
           then (if list_all (\<lambda>dx. dx \<le> 0) (np_diff x) then Inr (- trapezoid y x)
                 else Inl AucError)
           else Inr (trapezoid y x))"

definition aa_match_metrics ::
  "verdict list \<Rightarrow> nat \<Rightarrow> nat \<Rightarrow> nat \<Rightarrow> nat \<Rightarrow> real list \<Rightarrow> error + metrics" where
  "aa_match_metrics batch n_aa_true n_aa_pred n_ptm_true n_ptm_pred scores =
     (let n_aa_correct = sum_list (map (\<lambda>v. count_true (fst v)) batch);
          pep_match_bool_list = map (\<lambda>v. fst (snd v)) batch
      in if length scores \<noteq> length pep_match_bool_list then Inl AssertionError
         else
           let sorted_combined = sort_key (\<lambda>x. - fst x) (zip scores pep_match_bool_list);
               sorted_pred_bools = map snd sorted_combined;
               precision = map (\<lambda>(c, r). real c / real r)
                             (zip (cumsum sorted_pred_bools) [1..<length sorted_pred_bools + 1]);
               recall = map (\<lambda>c. real c / real (length sorted_pred_bools))
                          (cumsum sorted_pred_bools)
           in case auc recall precision of
                Inl e \<Rightarrow> Inl e
              | Inr a \<Rightarrow> Inr
                  \<lparr> aa_precision = real n_aa_correct / (real n_aa_pred + 1 / 10 ^ 8),
                    aa_recall = real n_aa_correct / (real n_aa_true + 1 / 10 ^ 8),
                    pep_precision = real (count_true pep_match_bool_list)
                                      / (real (length batch) + 1 / 10 ^ 8),
                    ptm_recall = real (sum_list (map (\<lambda>v. count_true (fst (snd (snd v)))) batch))
                                   / (real n_ptm_true + 1 / 10 ^ 8),
                    ptm_precision = real (sum_list (map (\<lambda>v. count_true (snd (snd (snd v)))) batch))
                                      / (real n_ptm_pred + 1 / 10 ^ 8),
                    curve_auc = a \<rparr>)"

text \<open>The composition \<^verbatim>\<open>aa_match_metrics(*aa_match_batch(...), scores)\<close>.\<close>

definition metrics_of_tally :: "tally \<Rightarrow> real list \<Rightarrow> error + metrics" where
  "metrics_of_tally t scores =
     aa_match_metrics (aa_matches_batch t) (n_aa1 t) (n_aa2 t) (n_ptm_1 t) (n_ptm_2 t) scores"

section \<open>Properties\<close>

subsection \<open>The index read by the backward pass\<close>

text \<open>
  \<open>aa_match\<close> takes element 0 of \<open>np.argwhere(~aa_matches)\<close> only after the prefix pass
  has reported that not all entries are true, so the element exists and \<open>hd\<close> reads it.
\<close>

lemma argwhere_not_nonempty: "\<not> all_true a \<Longrightarrow> argwhere_not a \<noteq> []"
proof -
  assume "\<not> all_true a"
  then obtain i where i: "i < length a" "\<not> a ! i"
    by (auto simp: all_true_def list_all_length)
  then have "i \<in> set (argwhere_not a)"
    by (simp add: argwhere_not_def)
  then show ?thesis by auto
qed

lemma hd_argwhere_not:
  "\<not> all_true a \<Longrightarrow> hd (argwhere_not a) < length a \<and> \<not> a ! hd (argwhere_not a)"
proof -
  assume "\<not> all_true a"
  then have "hd (argwhere_not a) \<in> set (argwhere_not a)"
    by (simp add: argwhere_not_nonempty)
  then show ?thesis by (simp add: argwhere_not_def)
qed

subsection \<open>The loop of the batch evaluator\<close>

lemma batch_loop_take:
  "batch_loop al ps1 ps2 d ptm ct it mode t =
   batch_loop al (take (min (length ps1) (length ps2)) ps1) (take (min (length ps1) (length ps2)) ps2) d ptm ct it mode t"
proof (induction al ps1 ps2 d ptm ct it mode t rule: batch_loop.induct)
  case (1 al p1 ps1 p2 ps2 d ptm ct it mode t)
  then show ?case by (simp split: sum.splits)
next
  case 2 then show ?case by simp
next
  case 3 then show ?case by simp
qed

lemma batch_loop_length:
  "batch_loop al ps1 ps2 d ptm ct it mode t = Inr t' \<Longrightarrow>
   length (aa_matches_batch t') = length (aa_matches_batch t) + min (length ps1) (length ps2)"
proof (induction al ps1 ps2 d ptm ct it mode t rule: batch_loop.induct)
  case (1 al p1 ps1 p2 ps2 d ptm ct it mode t)
  then show ?case by (auto split: sum.splits)
next
  case 2 then show ?case by simp
next
  case 3 then show ?case by simp
qed


lemma batch_loop_keeps:
  "batch_loop al ps1 ps2 d ptm ct it mode t = Inr t' \<Longrightarrow>
   take (length (aa_matches_batch t)) (aa_matches_batch t') = aa_matches_batch t"
proof (induction al ps1 ps2 d ptm ct it mode t rule: batch_loop.induct)
  case (1 al p1 ps1 p2 ps2 d ptm ct it mode t)
  from "1.prems" obtain x y where x: "tokenize_if_str p1 d = Inr x"
    and y: "tokenize_if_str p2 d = Inr y"
    by (auto split: sum.splits)
  define v where "v = (if length y = 0
                      then (zeros (length x), False, zeros (length x), zeros (length x))
                      else al x y d ptm ct it mode)"
  define t2 where "t2 = \<lparr> aa_matches_batch = aa_matches_batch t @ [v],
                   n_aa1 = n_aa1 t + length x,
                   n_aa2 = n_aa2 t + length y,
                   n_ptm_1 = n_ptm_1 t + sum_list (ptm_mask ptm x),
                   n_ptm_2 = n_ptm_2 t + sum_list (ptm_mask ptm y) \<rparr>"
  from "1.prems" x y have r: "batch_loop al ps1 ps2 d ptm ct it mode t2 = Inr t'"
    by (simp add: t2_def v_def)
  have "take (length (aa_matches_batch t2)) (aa_matches_batch t') = aa_matches_batch t2"
    using "1.IH" [OF x y] r by (simp add: t2_def v_def)
  then have e: "take (Suc (length (aa_matches_batch t))) (aa_matches_batch t') = aa_matches_batch t @ [v]"
    by (simp add: t2_def)
  have "take (length (aa_matches_batch t)) (take (Suc (length (aa_matches_batch t))) (aa_matches_batch t'))
        = take (length (aa_matches_batch t)) (aa_matches_batch t')"
    by (simp add: min_def)
  with e show ?case by simp
next
  case 2 then show ?case by simp
next
  case 3 then show ?case by simp
qed

lemma batch_loop_verdict:
  "batch_loop al ps1 ps2 d ptm ct it mode t = Inr t' \<Longrightarrow>
   i < length ps1 \<Longrightarrow> i < length ps2 \<Longrightarrow>
   tokenize_if_str (ps1 ! i) d = Inr a \<Longrightarrow> tokenize_if_str (ps2 ! i) d = Inr b \<Longrightarrow>
   aa_matches_batch t' ! (length (aa_matches_batch t) + i) =
     (if length b = 0 then (zeros (length a), False, zeros (length a), zeros (length a))
      else al a b d ptm ct it mode)"
proof (induction al ps1 ps2 d ptm ct it mode t arbitrary: i rule: batch_loop.induct)
  case (1 al p1 ps1 p2 ps2 d ptm ct it mode t)
  from "1.prems"(1) obtain x y where x: "tokenize_if_str p1 d = Inr x"
    and y: "tokenize_if_str p2 d = Inr y"
    by (auto split: sum.splits)
  define v where "v = (if length y = 0
                      then (zeros (length x), False, zeros (length x), zeros (length x))
                      else al x y d ptm ct it mode)"
  define t2 where "t2 = \<lparr> aa_matches_batch = aa_matches_batch t @ [v],
                   n_aa1 = n_aa1 t + length x,
                   n_aa2 = n_aa2 t + length y,
                   n_ptm_1 = n_ptm_1 t + sum_list (ptm_mask ptm x),
                   n_ptm_2 = n_ptm_2 t + sum_list (ptm_mask ptm y) \<rparr>"
  from "1.prems"(1) x y have r: "batch_loop al ps1 ps2 d ptm ct it mode t2 = Inr t'"
    by (simp add: t2_def v_def)
  have len2: "length (aa_matches_batch t2) = Suc (length (aa_matches_batch t))"
    by (simp add: t2_def)
  show ?case
  proof (cases i)
    case 0
    with "1.prems" x y have xa: "x = a" "y = b" by auto
    from batch_loop_keeps [OF r]
    have "take (Suc (length (aa_matches_batch t))) (aa_matches_batch t') = aa_matches_batch t @ [v]"
      by (simp add: t2_def)
    then have "take (Suc (length (aa_matches_batch t))) (aa_matches_batch t') ! length (aa_matches_batch t) = v"
      by simp
    then have "aa_matches_batch t' ! length (aa_matches_batch t) = v"
      by simp
    with 0 xa show ?thesis by (simp add: v_def)
  next
    case (Suc j)
    with "1.prems" have j: "j < length ps1" "j < length ps2"
      "tokenize_if_str (ps1 ! j) d = Inr a" "tokenize_if_str (ps2 ! j) d = Inr b"
      by auto
    have "aa_matches_batch t' ! (length (aa_matches_batch t2) + j) =
       (if length b = 0 then (zeros (length a), False, zeros (length a), zeros (length a))
        else al a b d ptm ct it mode)"
      using "1.IH" [OF x y _ j] r by (simp add: t2_def v_def)
    with Suc len2 show ?thesis by simp
  qed
next
  case 2 then show ?case by simp
next
  case 3 then show ?case by simp
qed


lemma batch_loop_tokenized:
  "batch_loop al ps1 ps2 d ptm ct it mode t = Inr t' \<Longrightarrow>
   i < length ps1 \<Longrightarrow> i < length ps2 \<Longrightarrow>
   (\<exists>a. tokenize_if_str (ps1 ! i) d = Inr a) \<and> (\<exists>b. tokenize_if_str (ps2 ! i) d = Inr b)"
proof (induction al ps1 ps2 d ptm ct it mode t arbitrary: i rule: batch_loop.induct)
  case (1 al p1 ps1 p2 ps2 d ptm ct it mode t)
  from "1.prems"(1) obtain x y where x: "tokenize_if_str p1 d = Inr x"
    and y: "tokenize_if_str p2 d = Inr y"
    by (auto split: sum.splits)
  show ?case
  proof (cases i)
    case 0
    with x y show ?thesis by simp
  next
    case (Suc j)
    with "1.prems"(2,3) have j: "j < length ps1" "j < length ps2" by auto
    from "1.prems"(1) x y "1.IH" [OF x y _ j] Suc
    show ?thesis by simp
  qed
next
  case 2 then show ?case by simp
next
  case 3 then show ?case by simp
qed

lemma split_peptide_error: "split_peptide s d = Inl e \<Longrightarrow> e = TokenizationError s"
  by (auto simp: split_peptide_def Let_def split: if_splits)

lemma tokenize_if_str_error: "tokenize_if_str p d = Inl e \<Longrightarrow> \<exists>s. e = TokenizationError s"
  by (cases p) (auto simp: tokenize_if_str_def dest: split_peptide_error)

lemma batch_loop_error:
  "batch_loop al ps1 ps2 d ptm ct it mode t = Inl e \<Longrightarrow> \<exists>s. e = TokenizationError s"
proof (induction al ps1 ps2 d ptm ct it mode t rule: batch_loop.induct)
  case (1 al p1 ps1 p2 ps2 d ptm ct it mode t)
  then show ?case
    by (auto split: sum.splits dest: tokenize_if_str_error)
next
  case 2 then show ?case by simp
next
  case 3 then show ?case by simp
qed

lemma check_ptms_None:
  "check_ptms ptms d = None \<longleftrightarrow> list_all (\<lambda>ptm. ptm \<in> set (dict_keys d)) ptms"
  by (induction ptms) auto

lemma check_ptms_Some:
  "check_ptms ptms d = Some e \<Longrightarrow>
   e = ConfigurationError (hd (filter (\<lambda>ptm. ptm \<notin> set (dict_keys d)) ptms))"
  by (induction ptms) (auto split: if_splits)

text \<open>
  Claim C5. Two runs of \<open>aa_match\<close> that differ only in \<open>mode\<close> return the same
  match array, whole-sequence flag and PTM-match arrays: the parameter is never read.
\<close>

theorem aa_match_ignores_mode:
  "aa_match peptide1 peptide2 d ptm_list ct it mode =
   aa_match peptide1 peptide2 d ptm_list ct it mode'"
  by (simp add: aa_match_def)

text \<open>
  Claim C10. Peptide lists of different lengths raise no error of their own: the batch
  evaluator returns exactly what it returns on the two lists cut to the shorter length, so
  the surplus peptides contribute nothing (an untokenizable surplus string included), and
  a successful call records one verdict per pair of the shorter length.
\<close>

theorem aa_match_batch_zip_truncates:
  "aa_match_batch peptides1 peptides2 d ptm_list ct it mode =
     aa_match_batch (take (min (length peptides1) (length peptides2)) peptides1)
                    (take (min (length peptides1) (length peptides2)) peptides2)
                    d ptm_list ct it mode
   \<and> (\<forall>t. aa_match_batch peptides1 peptides2 d ptm_list ct it mode = Inr t \<longrightarrow>
          length (aa_matches_batch t) = min (length peptides1) (length peptides2))"
proof
  show "aa_match_batch peptides1 peptides2 d ptm_list ct it mode =
     aa_match_batch (take (min (length peptides1) (length peptides2)) peptides1)
                    (take (min (length peptides1) (length peptides2)) peptides2)
                    d ptm_list ct it mode"
    unfolding aa_match_batch_def aa_match_batch_with_def
    using batch_loop_take [of aa_match peptides1 peptides2 d ptm_list ct it mode empty_tally]
    by (simp split: option.splits)
next
  show "\<forall>t. aa_match_batch peptides1 peptides2 d ptm_list ct it mode = Inr t \<longrightarrow>
          length (aa_matches_batch t) = min (length peptides1) (length peptides2)"
    unfolding aa_match_batch_def aa_match_batch_with_def
    by (auto split: option.splits dest: batch_loop_length simp: empty_tally_def)
qed

text \<open>A batch whose truth list has two surplus entries, one of them untokenizable.\<close>

theorem aa_match_batch_zip_truncates_witness:
  "aa_match_batch [Tokens [''A''], Str ''??'', Tokens [''A'']] [Tokens [''A'']]
      [(''A'', 71)] [] (1/2) (1/10) ''best''
   = Inr \<lparr>aa_matches_batch = [([True], True, [False], [False])],
           n_aa1 = 1, n_aa2 = 1, n_ptm_1 = 0, n_ptm_2 = 0\<rparr>
   \<and> aa_match_batch [Tokens [''A''], Str ''??'', Tokens [''A'']] [Tokens [''A'']]
      [(''A'', 71)] [] (1/2) (1/10) ''best''
     = aa_match_batch [Tokens [''A'']] [Tokens [''A'']] [(''A'', 71)] [] (1/2) (1/10) ''best''
   \<and> length (aa_matches_batch \<lparr>aa_matches_batch = [([True], True, [False], [False])],
           n_aa1 = 1, n_aa2 = 1, n_ptm_1 = 0, n_ptm_2 = 0\<rparr>) = 1"
proof -
  have e: "aa_match_batch [Tokens [''A''], Str ''??'', Tokens [''A'']] [Tokens [''A'']]
      [(''A'', 71)] [] (1/2) (1/10) ''best''
   = Inr \<lparr>aa_matches_batch = [([True], True, [False], [False])],
           n_aa1 = 1, n_aa2 = 1, n_ptm_1 = 0, n_ptm_2 = 0\<rparr>"
    by code_simp
  from aa_match_batch_zip_truncates [of "[Tokens [''A''], Str ''??'', Tokens [''A'']]"
      "[Tokens [''A'']]" "[(''A'', 71)]" "[]" "1/2" "1/10" "''best''"] e
  show ?thesis by simp
qed

text \<open>
  Claim C4. When the batch evaluator succeeds and the prediction of pair \<open>i\<close> is
  empty while its truth is not, the verdict recorded for the pair is all-false arrays of the
  truth length with whole-sequence match false. The statement holds for every aligner passed
  to the loop, so the recorded verdict does not come from an alignment walk; \<open>aa_match_batch\<close>
  is the instance with \<open>aa_match\<close>.
\<close>

theorem empty_prediction_verdict:
  assumes "aa_match_batch_with aligner peptides1 peptides2 d ptm_list ct it mode = Inr t"
    and "i < length peptides1" and "i < length peptides2"
    and "tokenize_if_str (peptides1 ! i) d = Inr truth" and "truth \<noteq> []"
    and "tokenize_if_str (peptides2 ! i) d = Inr []"
  shows "aa_matches_batch t ! i =
           (replicate (length truth) False, False,
            replicate (length truth) False, replicate (length truth) False)"
proof -
  from assms(1)
  have r: "batch_loop aligner peptides1 peptides2 d ptm_list ct it mode empty_tally = Inr t"
    by (simp add: aa_match_batch_with_def split: option.splits)
  from batch_loop_verdict [OF r assms(2,3,4,6)] show ?thesis
    by (simp add: empty_tally_def zeros_def)
qed

text \<open>The instance \<open>aa_match\<close>, truth \<open>[A, B]\<close>, prediction the empty string.\<close>

theorem empty_prediction_verdict_witness:
  "aa_match_batch_with aa_match [Tokens [''A'', ''B'']] [Str []]
       [(''A'', 71), (''B'', 114)] [] (1/2) (1/10) ''best''
     = Inr \<lparr>aa_matches_batch = [([False, False], False, [False, False], [False, False])],
           n_aa1 = 2, n_aa2 = 0, n_ptm_1 = 0, n_ptm_2 = 0\<rparr>
   \<and> aa_matches_batch
        \<lparr>aa_matches_batch = [([False, False], False, [False, False], [False, False])],
           n_aa1 = 2, n_aa2 = 0, n_ptm_1 = 0, n_ptm_2 = 0\<rparr> ! 0
     = (replicate (length [''A'', ''B'']) False, False,
        replicate (length [''A'', ''B'']) False, replicate (length [''A'', ''B'']) False)"
proof -
  have e: "aa_match_batch_with aa_match [Tokens [''A'', ''B'']] [Str []]
       [(''A'', 71), (''B'', 114)] [] (1/2) (1/10) ''best''
     = Inr \<lparr>aa_matches_batch = [([False, False], False, [False, False], [False, False])],
           n_aa1 = 2, n_aa2 = 0, n_ptm_1 = 0, n_ptm_2 = 0\<rparr>"
    by code_simp
  have t1: "tokenize_if_str ([Tokens [''A'', ''B'']] ! 0) [(''A'', 71), (''B'', 114)]
              = Inr [''A'', ''B'']"
    by (simp add: tokenize_if_str_def)
  have t2: "tokenize_if_str ([Str []] ! 0) [(''A'', 71), (''B'', 114)] = Inr []"
    by code_simp
  from empty_prediction_verdict [OF e _ _ t1 _ t2] e show ?thesis by simp
qed

text \<open>
  Claim C8. The batch evaluator fails with the configuration error if and only if some
  token of the PTM list is no key of the mass table; in that case the error names the first
  such token and the result is the same for every pair of peptide lists, tolerances and
  mode, so no pair has been tokenized, counted or aligned.
\<close>

theorem aa_match_batch_ptm_check:
  "((\<exists>ptm. aa_match_batch peptides1 peptides2 d ptm_list ct it mode
             = Inl (ConfigurationError ptm))
      \<longleftrightarrow> (\<exists>ptm \<in> set ptm_list. ptm \<notin> set (dict_keys d)))
   \<and> ((\<exists>ptm \<in> set ptm_list. ptm \<notin> set (dict_keys d)) \<longrightarrow>
        aa_match_batch peptides1 peptides2 d ptm_list ct it mode
          = Inl (ConfigurationError (hd (filter (\<lambda>ptm. ptm \<notin> set (dict_keys d)) ptm_list)))
        \<and> aa_match_batch peptides1 peptides2 d ptm_list ct it mode
          = aa_match_batch peptides1' peptides2' d ptm_list ct' it' mode')"
proof -
  have none: "check_ptms ptm_list d = None \<longleftrightarrow> \<not> (\<exists>ptm \<in> set ptm_list. ptm \<notin> set (dict_keys d))"
    by (simp add: check_ptms_None list_all_iff)
  show ?thesis
  proof (cases "check_ptms ptm_list d")
    case None
    with none have k: "\<not> (\<exists>ptm \<in> set ptm_list. ptm \<notin> set (dict_keys d))" by simp
    have "\<not> (\<exists>ptm. aa_match_batch peptides1 peptides2 d ptm_list ct it mode
             = Inl (ConfigurationError ptm))"
      using None by (auto simp: aa_match_batch_def aa_match_batch_with_def
          dest: batch_loop_error)
    with k show ?thesis by blast
  next
    case (Some e)
    with none have k: "\<exists>ptm \<in> set ptm_list. ptm \<notin> set (dict_keys d)" by simp
    from check_ptms_Some [OF Some]
    have e: "e = ConfigurationError (hd (filter (\<lambda>ptm. ptm \<notin> set (dict_keys d)) ptm_list))" .
    have "\<And>ps1 ps2 c i m. aa_match_batch ps1 ps2 d ptm_list c i m = Inl e"
      using Some by (simp add: aa_match_batch_def aa_match_batch_with_def)
    with k e show ?thesis by auto
  qed
qed

text \<open>A PTM list with a token that the table lacks, and a truth that would not tokenize.\<close>

theorem aa_match_batch_ptm_check_witness:
  "(\<exists>ptm \<in> set [''A'', ''M(+15.99)'']. ptm \<notin> set (dict_keys [(''A'', 71), (''M'', 131)]))
   \<and> aa_match_batch [Str ''??''] [Tokens [''A'']] [(''A'', 71), (''M'', 131)]
        [''A'', ''M(+15.99)''] (1/2) (1/10) ''best''
       = Inl (ConfigurationError ''M(+15.99)'')"
proof -
  have k: "\<exists>ptm \<in> set [''A'', ''M(+15.99)'']. ptm \<notin> set (dict_keys [(''A'', 71), (''M'', 131)])"
    by (simp add: dict_keys_def)
  have h: "hd (filter (\<lambda>ptm. ptm \<notin> set (dict_keys [(''A'', 71), (''M'', 131)]))
             [''A'', ''M(+15.99)'']) = ''M(+15.99)''"
    by (simp add: dict_keys_def)
  from aa_match_batch_ptm_check [of "[Str ''??'']" "[Tokens [''A'']]" "[(''A'', 71), (''M'', 131)]"
      "[''A'', ''M(+15.99)'']" "1/2" "1/10" "''best''"] k h
  show ?thesis by simp
qed

text \<open>
  Claim C9. Applied to two empty peptides, \<open>aa_match\<close> returns empty arrays and the
  whole-sequence flag true, while the batch evaluator records the flag false for every pair
  whose prediction is empty.
\<close>

theorem aa_match_empty_vs_batch:
  "aa_match [] [] d ptm_list ct it mode = ([], True, [], [])
   \<and> (aa_match_batch peptides1 peptides2 d ptm_list ct it mode = Inr t \<longrightarrow>
        i < length peptides1 \<longrightarrow> i < length peptides2 \<longrightarrow>
        tokenize_if_str (peptides2 ! i) d = Inr [] \<longrightarrow>
        \<not> fst (snd (aa_matches_batch t ! i)))"
proof
  have "prefix_loop [] [] d ptm_list ct it 0 0 0 0 ([], [], []) = ([], [], [])"
    by (simp add: prefix_loop.simps)
  then show "aa_match [] [] d ptm_list ct it mode = ([], True, [], [])"
    by (simp add: aa_match_def aa_match_prefix_def zeros_def all_true_def)
next
  show "aa_match_batch peptides1 peptides2 d ptm_list ct it mode = Inr t \<longrightarrow>
        i < length peptides1 \<longrightarrow> i < length peptides2 \<longrightarrow>
        tokenize_if_str (peptides2 ! i) d = Inr [] \<longrightarrow>
        \<not> fst (snd (aa_matches_batch t ! i))"
  proof (intro impI)
    assume a: "aa_match_batch peptides1 peptides2 d ptm_list ct it mode = Inr t"
      and i: "i < length peptides1" "i < length peptides2"
      and e: "tokenize_if_str (peptides2 ! i) d = Inr []"
    from a
    have r: "batch_loop aa_match peptides1 peptides2 d ptm_list ct it mode empty_tally = Inr t"
      by (simp add: aa_match_batch_def aa_match_batch_with_def split: option.splits)
    from batch_loop_tokenized [OF r i] obtain truth
      where t: "tokenize_if_str (peptides1 ! i) d = Inr truth" by blast
    from batch_loop_verdict [OF r i t e] show "\<not> fst (snd (aa_matches_batch t ! i))"
      by (simp add: empty_tally_def)
  qed
qed

text \<open>The pair of two empty peptides, directly and through the batch evaluator.\<close>

theorem aa_match_empty_vs_batch_witness:
  "aa_match [] [] [(''A'', 71)] [] (1/2) (1/10) ''best'' = ([], True, [], [])
   \<and> aa_match_batch [Tokens []] [Tokens []] [(''A'', 71)] [] (1/2) (1/10) ''best''
       = Inr \<lparr>aa_matches_batch = [([], False, [], [])],
               n_aa1 = 0, n_aa2 = 0, n_ptm_1 = 0, n_ptm_2 = 0\<rparr>
   \<and> \<not> fst (snd (aa_matches_batch \<lparr>aa_matches_batch = [([], False, [], [])],
               n_aa1 = 0, n_aa2 = 0, n_ptm_1 = 0, n_ptm_2 = 0\<rparr> ! 0))"
proof -
  have e: "aa_match_batch [Tokens []] [Tokens []] [(''A'', 71)] [] (1/2) (1/10) ''best''
       = Inr \<lparr>aa_matches_batch = [([], False, [], [])],
               n_aa1 = 0, n_aa2 = 0, n_ptm_1 = 0, n_ptm_2 = 0\<rparr>"
    by code_simp
  have t: "tokenize_if_str ([Tokens []] ! 0) [(''A'', 71)] = Inr []"
    by (simp add: tokenize_if_str_def)
  from aa_match_empty_vs_batch [of "[(''A'', 71)]" "[]" "1/2" "1/10" "''best''"
      "[Tokens []]" "[Tokens []]" _ 0] e t
  show ?thesis by simp
qed

subsection \<open>Identity\<close>

lemma commit_self:
  "0 < it \<Longrightarrow> i < length am \<Longrightarrow>
   fst (commit ptm it i a a t1 t2 (am, pm1, pm2)) = am[i := True]"
  by (simp add: commit_def mass_diff_def)

lemma prefix_loop_self:
  "0 < ct \<Longrightarrow> 0 < it \<Longrightarrow> length am = length p \<Longrightarrow> i \<le> length p \<Longrightarrow>
   fst (prefix_loop p p d ptm ct it i i c c (am, pm1, pm2))
     = take i am @ replicate (length p - i) True"
proof (induction "length p - i" arbitrary: i c am pm1 pm2)
  case 0
  then have "i = length p" by simp
  with 0 show ?case by (simp add: prefix_loop.simps)
next
  case (Suc n)
  then have lt: "i < length p" by simp
  obtain am' pm1' pm2' where
    c: "commit ptm it (max i i) (dict_get d (p ! i) 0) (dict_get d (p ! i) 0) (p ! i) (p ! i)
          (am, pm1, pm2) = (am', pm1', pm2')"
    by (cases "commit ptm it (max i i) (dict_get d (p ! i) 0) (dict_get d (p ! i) 0) (p ! i) (p ! i)
          (am, pm1, pm2)") auto
  from commit_self [OF Suc.prems(2), of i am ptm "dict_get d (p ! i) 0" "p ! i" "p ! i" pm1 pm2]
    c lt Suc.prems(3)
  have am': "am' = am[i := True]" by simp
  have step: "prefix_loop p p d ptm ct it i i c c (am, pm1, pm2)
      = prefix_loop p p d ptm ct it (i + 1) (i + 1)
          (c + dict_get d (p ! i) 0) (c + dict_get d (p ! i) 0) (am', pm1', pm2')"
    using lt Suc.prems(1) c
    by (subst prefix_loop.simps) (simp add: mass_diff_def)
  have n: "n = length p - (i + 1)" using Suc.hyps(2) by simp
  have "fst (prefix_loop p p d ptm ct it (i + 1) (i + 1)
          (c + dict_get d (p ! i) 0) (c + dict_get d (p ! i) 0) (am', pm1', pm2'))
        = take (i + 1) am' @ replicate (length p - (i + 1)) True"
    using Suc.hyps(1) [OF n Suc.prems(1,2)] am' Suc.prems(3) lt by simp
  also have "take (i + 1) am' = take i am @ [True]"
    using am' lt Suc.prems(3) by (simp add: take_Suc_conv_app_nth)
  also have "(take i am @ [True]) @ replicate (length p - (i + 1)) True
        = take i am @ replicate (length p - i) True"
    using lt by (simp add: replicate_Suc [symmetric] Suc_diff_Suc del: replicate_Suc)
  finally show ?case using step by simp
qed

text \<open>
  The reals of the model have no infinity and no NaN, whereas the cumulative masses of the
  code are floats: three tokens of mass \<open>1e308\<close> make both sums \<open>inf\<close> at the second
  step, \<open>inf - inf\<close> is \<open>nan\<close>, and the code accepts nothing there. The identity is
  therefore stated for peptides whose absolute token masses sum to at most \<open>2 ^ 1022\<close>, a
  quarter of the float range. Every cumulative mass of the walk is then bounded by that sum
  (lemma below), which leaves a factor of almost four for the rounding of the partial sums
  before a float could overflow; so on these inputs the sums of the code are finite, both
  sides of a self-alignment carry the same sum, and the model decides as the code does.
\<close>

lemma cumulative_mass_bounded:
  "\<bar>sum_list (map (\<lambda>t. dict_get d t 0) (take i p))\<bar>
     \<le> sum_list (map (\<lambda>t. \<bar>dict_get d t 0\<bar>) p)"
proof -
  let ?g = "\<lambda>t. \<bar>dict_get d t 0\<bar>"
  have "\<bar>sum_list (map (\<lambda>t. dict_get d t 0) (take i p))\<bar>
          \<le> sum_list (map abs (map (\<lambda>t. dict_get d t 0) (take i p)))"
    by (rule sum_list_abs)
  also have "\<dots> = sum_list (map ?g (take i p))"
    by (simp add: comp_def)
  also have "\<dots> \<le> sum_list (map ?g (take i p)) + sum_list (map ?g (drop i p))"
  proof -
    have "0 \<le> sum_list (map ?g (drop i p))"
      by (rule sum_list_nonneg) auto
    then show ?thesis by simp
  qed
  also have "\<dots> = sum_list (map ?g p)"
  proof -
    have "sum_list (map ?g p) = sum_list (map ?g (take i p @ drop i p))"
      by simp
    also have "\<dots> = sum_list (map ?g (take i p)) + sum_list (map ?g (drop i p))"
      by (simp only: map_append sum_list.append)
    finally show ?thesis by simp
  qed
  finally show ?thesis .
qed

text \<open>
  Claim C1, as amended. Aligning a non-empty peptide against itself, with both tolerances
  strictly positive and with finite token masses whose absolute values sum to at most
  \<open>2 ^ 1022\<close> (so that no cumulative mass overflows), yields a match array whose entries
  are all true and the whole-sequence flag true. (With a tolerance equal to 0 the strict
  comparisons of the walk accept nothing; see the counterexample below.)
\<close>

theorem aa_match_identity:
  assumes "0 < ct" and "0 < it" and "p \<noteq> []"
    and "sum_list (map (\<lambda>t. \<bar>dict_get d t 0\<bar>) p) \<le> 2 ^ 1022"
  shows "fst (aa_match p p d ptm ct it mode) = replicate (length p) True
         \<and> fst (snd (aa_match p p d ptm ct it mode))"
proof -
  obtain am pm1 pm2 where
    r: "prefix_loop p p d ptm ct it 0 0 0 0
          (zeros (length p), zeros (length p), zeros (length p)) = (am, pm1, pm2)"
    by (cases "prefix_loop p p d ptm ct it 0 0 0 0
          (zeros (length p), zeros (length p), zeros (length p))") auto
  from prefix_loop_self [OF assms(1,2), of "zeros (length p)" p 0 d ptm 0 "zeros (length p)" "zeros (length p)"] r
  have am: "am = replicate (length p) True" by (simp add: zeros_def)
  then have "all_true am" by (simp add: all_true_def list_all_iff)
  with r am show ?thesis
    by (simp add: aa_match_def aa_match_prefix_def)
qed

text \<open>The peptide \<open>[A, B, C]\<close> of the specification's scenario (masses 71, 114, 103, sum
  288), tolerances 0.5 and 0.1.\<close>

theorem aa_match_identity_witness:
  "(0 :: real) < 1/2 \<and> (0 :: real) < 1/10 \<and> [''A'', ''B'', ''C''] \<noteq> []
   \<and> sum_list (map (\<lambda>t. \<bar>dict_get [(''A'', 71), (''B'', 114), (''C'', 103)] t 0\<bar>)
         [''A'', ''B'', ''C'']) \<le> 2 ^ 1022
   \<and> fst (aa_match [''A'', ''B'', ''C''] [''A'', ''B'', ''C'']
          [(''A'', 71), (''B'', 114), (''C'', 103)] [] (1/2) (1/10) ''best'')
       = [True, True, True]
   \<and> fst (snd (aa_match [''A'', ''B'', ''C''] [''A'', ''B'', ''C'']
          [(''A'', 71), (''B'', 114), (''C'', 103)] [] (1/2) (1/10) ''best''))"
proof -
  have h: "(0 :: real) < 1/2" "(0 :: real) < 1/10" "[''A'', ''B'', ''C''] \<noteq> []"
    by simp_all
  have "sum_list (map (\<lambda>t. \<bar>dict_get [(''A'', 71), (''B'', 114), (''C'', 103)] t 0\<bar>)
          [''A'', ''B'', ''C'']) \<le> 2 ^ 9"
    by (simp add: dict_get_def)
  moreover have "(2 :: real) ^ 9 \<le> 2 ^ 1022"
    by (rule power_increasing) simp_all
  ultimately
  have b: "sum_list (map (\<lambda>t. \<bar>dict_get [(''A'', 71), (''B'', 114), (''C'', 103)] t 0\<bar>)
          [''A'', ''B'', ''C'']) \<le> 2 ^ 1022"
    by (rule order_trans)
  from aa_match_identity [OF h b, of "[]" "''best''"]
  have r: "fst (aa_match [''A'', ''B'', ''C''] [''A'', ''B'', ''C'']
          [(''A'', 71), (''B'', 114), (''C'', 103)] [] (1/2) (1/10) ''best'')
         = replicate (length [''A'', ''B'', ''C'']) True
     \<and> fst (snd (aa_match [''A'', ''B'', ''C''] [''A'', ''B'', ''C'']
          [(''A'', 71), (''B'', 114), (''C'', 103)] [] (1/2) (1/10) ''best''))" .
  have l: "replicate (length [''A'', ''B'', ''C'']) True = [True, True, True]"
    by (simp add: numeral_3_eq_3)
  from r l h b show ?thesis by (simp only: simp_thms)
qed

text \<open>
  Claim C1 as stated fails at tolerance 0: with \<open>cumTol = 0\<close>, and with \<open>indTol = 0\<close>,
  the one-token peptide \<open>[A]\<close> aligned against itself gives \<open>[False]\<close> and flag false.
\<close>

theorem identity_zero_tolerance_counterexample:
  "aa_match [''A''] [''A''] [(''A'', 71)] [] 0 (1/10) ''best'' = ([False], False, [False], [False])
   \<and> aa_match [''A''] [''A''] [(''A'', 71)] [] (1/2) 0 ''best'' = ([False], False, [False], [False])"
  by code_simp

subsection \<open>Symmetry\<close>

lemma commit_swap:
  "commit ptm it idx a2 a1 t2 t1 (case arrs of (a, x, y) \<Rightarrow> (a, y, x))
     = (case commit ptm it idx a1 a2 t1 t2 arrs of (a, x, y) \<Rightarrow> (a, y, x))"
  by (cases arrs) (simp add: commit_def mass_diff_def Let_def abs_minus_commute)

lemma prefix_loop_swap:
  "0 < ct \<Longrightarrow>
   prefix_loop p2 p1 d ptm ct it i2 i1 c2 c1 (case arrs of (a, x, y) \<Rightarrow> (a, y, x))
     = (case prefix_loop p1 p2 d ptm ct it i1 i2 c1 c2 arrs of (a, x, y) \<Rightarrow> (a, y, x))"
proof (induction p1 p2 d ptm ct it i1 i2 c1 c2 arrs rule: prefix_loop.induct)
  case (1 p1 p2 d ptm ct it i1 i2 c1 c2 arrs)
  let ?a1 = "dict_get d (p1 ! i1) 0" and ?a2 = "dict_get d (p2 ! i2) 0"
  let ?sw = "case arrs of (a, x, y) \<Rightarrow> (a, y, x)"
  note L = prefix_loop.simps [of p2 p1 d ptm ct it i2 i1 c2 c1 ?sw]
  note R = prefix_loop.simps [of p1 p2 d ptm ct it i1 i2 c1 c2 arrs]
  show ?case
  proof (cases "i1 < length p1 \<and> i2 < length p2")
    case False
    then have F': "\<not> (i2 < length p2 \<and> i1 < length p1)" by blast
    have "prefix_loop p2 p1 d ptm ct it i2 i1 c2 c1 ?sw = ?sw"
      by (subst L) (simp only: if_not_P [OF F'])
    moreover have "prefix_loop p1 p2 d ptm ct it i1 i2 c1 c2 arrs = arrs"
      by (subst R) (simp only: if_not_P [OF False])
    ultimately show ?thesis by simp
  next
    case guard: True
    then have guard': "i2 < length p2 \<and> i1 < length p1" by blast
    show ?thesis
    proof (cases "\<bar>mass_diff (c1 + ?a1) (c2 + ?a2) True\<bar> < ct")
      case True
      then have T': "\<bar>mass_diff (c2 + ?a2) (c1 + ?a1) True\<bar> < ct"
        by (simp add: mass_diff_def abs_minus_commute)
      have l: "prefix_loop p2 p1 d ptm ct it i2 i1 c2 c1 ?sw
            = prefix_loop p2 p1 d ptm ct it (i2 + 1) (i1 + 1) (c2 + ?a2) (c1 + ?a1)
                (commit ptm it (max i2 i1) ?a2 ?a1 (p2 ! i2) (p1 ! i1) ?sw)"
        by (subst L) (simp only: if_P [OF guard'] if_P [OF T'])
      have r: "prefix_loop p1 p2 d ptm ct it i1 i2 c1 c2 arrs
            = prefix_loop p1 p2 d ptm ct it (i1 + 1) (i2 + 1) (c1 + ?a1) (c2 + ?a2)
                (commit ptm it (max i1 i2) ?a1 ?a2 (p1 ! i1) (p2 ! i2) arrs)"
        by (subst R) (simp only: if_P [OF guard] if_P [OF True])
      have c: "commit ptm it (max i2 i1) ?a2 ?a1 (p2 ! i2) (p1 ! i1) ?sw
            = (case commit ptm it (max i1 i2) ?a1 ?a2 (p1 ! i1) (p2 ! i2) arrs of
                 (a, x, y) \<Rightarrow> (a, y, x))"
        by (simp only: commit_swap max.commute)
      from "1.IH"(1) [OF guard True "1.prems"] show ?thesis
        by (simp only: l r c)
    next
      case nw: False
      then have nw': "\<not> \<bar>mass_diff (c2 + ?a2) (c1 + ?a1) True\<bar> < ct"
        by (simp add: mass_diff_def abs_minus_commute)
      from nw "1.prems" have ne: "c1 + ?a1 \<noteq> c2 + ?a2"
        by (auto simp: mass_diff_def)
      show ?thesis
      proof (cases "c2 + ?a2 > c1 + ?a1")
        case True
        then have n: "\<not> c1 + ?a1 > c2 + ?a2" by simp
        have l: "prefix_loop p2 p1 d ptm ct it i2 i1 c2 c1 ?sw
              = prefix_loop p2 p1 d ptm ct it i2 (i1 + 1) c2 (c1 + ?a1) ?sw"
          by (subst L) (simp only: if_P [OF guard'] if_not_P [OF nw'] if_not_P [OF n])
        have r: "prefix_loop p1 p2 d ptm ct it i1 i2 c1 c2 arrs
              = prefix_loop p1 p2 d ptm ct it (i1 + 1) i2 (c1 + ?a1) c2 arrs"
          by (subst R) (simp only: if_P [OF guard] if_not_P [OF nw] if_P [OF True])
        from "1.IH"(2) [OF guard nw True "1.prems"] show ?thesis
          by (simp only: l r)
      next
        case False
        with ne have g: "c1 + ?a1 > c2 + ?a2" by simp
        have l: "prefix_loop p2 p1 d ptm ct it i2 i1 c2 c1 ?sw
              = prefix_loop p2 p1 d ptm ct it (i2 + 1) i1 (c2 + ?a2) c1 ?sw"
          by (subst L) (simp only: if_P [OF guard'] if_not_P [OF nw'] if_P [OF g])
        have r: "prefix_loop p1 p2 d ptm ct it i1 i2 c1 c2 arrs
              = prefix_loop p1 p2 d ptm ct it i1 (i2 + 1) c1 (c2 + ?a2) arrs"
          by (subst R) (simp only: if_P [OF guard] if_not_P [OF nw] if_not_P [OF False])
        from "1.IH"(3) [OF guard nw False "1.prems"] show ?thesis
          by (simp only: l r)
      qed
    qed
  qed
qed

lemma suffix_loop_swap:
  "0 < ct \<Longrightarrow>
   suffix_loop p2 p1 d ptm ct it i_stop i2 i1 c2 c1 (case arrs of (a, x, y) \<Rightarrow> (a, y, x))
     = (case suffix_loop p1 p2 d ptm ct it i_stop i1 i2 c1 c2 arrs of (a, x, y) \<Rightarrow> (a, y, x))"
proof (induction p1 p2 d ptm ct it i_stop i1 i2 c1 c2 arrs rule: suffix_loop.induct)
  case (1 p1 p2 d ptm ct it i_stop i1 i2 c1 c2 arrs)
  let ?a1 = "dict_get d (p1 ! nat i1) 0" and ?a2 = "dict_get d (p2 ! nat i2) 0"
  let ?sw = "case arrs of (a, x, y) \<Rightarrow> (a, y, x)"
  note L = suffix_loop.simps [of p2 p1 d ptm ct it i_stop i2 i1 c2 c1 ?sw]
  note R = suffix_loop.simps [of p1 p2 d ptm ct it i_stop i1 i2 c1 c2 arrs]
  show ?case
  proof (cases "i1 \<ge> int i_stop \<and> i2 \<ge> int i_stop")
    case False
    then have F': "\<not> (i2 \<ge> int i_stop \<and> i1 \<ge> int i_stop)" by blast
    have "suffix_loop p2 p1 d ptm ct it i_stop i2 i1 c2 c1 ?sw = ?sw"
      by (subst L) (simp only: if_not_P [OF F'])
    moreover have "suffix_loop p1 p2 d ptm ct it i_stop i1 i2 c1 c2 arrs = arrs"
      by (subst R) (simp only: if_not_P [OF False])
    ultimately show ?thesis by simp
  next
    case guard: True
    then have guard': "i2 \<ge> int i_stop \<and> i1 \<ge> int i_stop" by blast
    show ?thesis
    proof (cases "\<bar>mass_diff (c1 + ?a1) (c2 + ?a2) True\<bar> < ct")
      case True
      then have T': "\<bar>mass_diff (c2 + ?a2) (c1 + ?a1) True\<bar> < ct"
        by (simp add: mass_diff_def abs_minus_commute)
      have l: "suffix_loop p2 p1 d ptm ct it i_stop i2 i1 c2 c1 ?sw
            = suffix_loop p2 p1 d ptm ct it i_stop (i2 - 1) (i1 - 1) (c2 + ?a2) (c1 + ?a1)
                (commit ptm it (nat (max i2 i1)) ?a2 ?a1 (p2 ! nat i2) (p1 ! nat i1) ?sw)"
        by (subst L) (simp only: if_P [OF guard'] if_P [OF T'])
      have r: "suffix_loop p1 p2 d ptm ct it i_stop i1 i2 c1 c2 arrs
            = suffix_loop p1 p2 d ptm ct it i_stop (i1 - 1) (i2 - 1) (c1 + ?a1) (c2 + ?a2)
                (commit ptm it (nat (max i1 i2)) ?a1 ?a2 (p1 ! nat i1) (p2 ! nat i2) arrs)"
        by (subst R) (simp only: if_P [OF guard] if_P [OF True])
      have c: "commit ptm it (nat (max i2 i1)) ?a2 ?a1 (p2 ! nat i2) (p1 ! nat i1) ?sw
            = (case commit ptm it (nat (max i1 i2)) ?a1 ?a2 (p1 ! nat i1) (p2 ! nat i2) arrs of
                 (a, x, y) \<Rightarrow> (a, y, x))"
        by (simp only: commit_swap max.commute)
      from "1.IH"(1) [OF guard True "1.prems"] show ?thesis
        by (simp only: l r c)
    next
      case nw: False
      then have nw': "\<not> \<bar>mass_diff (c2 + ?a2) (c1 + ?a1) True\<bar> < ct"
        by (simp add: mass_diff_def abs_minus_commute)
      from nw "1.prems" have ne: "c1 + ?a1 \<noteq> c2 + ?a2"
        by (auto simp: mass_diff_def)
      show ?thesis
      proof (cases "c2 + ?a2 > c1 + ?a1")
        case True
        then have n: "\<not> c1 + ?a1 > c2 + ?a2" by simp
        have l: "suffix_loop p2 p1 d ptm ct it i_stop i2 i1 c2 c1 ?sw
              = suffix_loop p2 p1 d ptm ct it i_stop i2 (i1 - 1) c2 (c1 + ?a1) ?sw"
          by (subst L) (simp only: if_P [OF guard'] if_not_P [OF nw'] if_not_P [OF n])
        have r: "suffix_loop p1 p2 d ptm ct it i_stop i1 i2 c1 c2 arrs
              = suffix_loop p1 p2 d ptm ct it i_stop (i1 - 1) i2 (c1 + ?a1) c2 arrs"
          by (subst R) (simp only: if_P [OF guard] if_not_P [OF nw] if_P [OF True])
        from "1.IH"(2) [OF guard nw True "1.prems"] show ?thesis
          by (simp only: l r)
      next
        case False
        with ne have g: "c1 + ?a1 > c2 + ?a2" by simp
        have l: "suffix_loop p2 p1 d ptm ct it i_stop i2 i1 c2 c1 ?sw
              = suffix_loop p2 p1 d ptm ct it i_stop (i2 - 1) i1 (c2 + ?a2) c1 ?sw"
          by (subst L) (simp only: if_P [OF guard'] if_not_P [OF nw'] if_P [OF g])
        have r: "suffix_loop p1 p2 d ptm ct it i_stop i1 i2 c1 c2 arrs
              = suffix_loop p1 p2 d ptm ct it i_stop i1 (i2 - 1) c1 (c2 + ?a2) arrs"
          by (subst R) (simp only: if_P [OF guard] if_not_P [OF nw] if_not_P [OF False])
        from "1.IH"(3) [OF guard nw False "1.prems"] show ?thesis
          by (simp only: l r)
      qed
    qed
  qed
qed

lemma prefix_loop_nonpos:
  "ct \<le> 0 \<Longrightarrow> prefix_loop p1 p2 d ptm ct it i1 i2 c1 c2 arrs = arrs"
proof (induction p1 p2 d ptm ct it i1 i2 c1 c2 arrs rule: prefix_loop.induct)
  case (1 p1 p2 d ptm ct it i1 i2 c1 c2 arrs)
  let ?a1 = "dict_get d (p1 ! i1) 0" and ?a2 = "dict_get d (p2 ! i2) 0"
  from "1.prems" have nw: "\<not> \<bar>mass_diff (c1 + ?a1) (c2 + ?a2) True\<bar> < ct"
    by simp
  show ?case
    using "1.IH"(2,3) nw "1.prems"
    by (subst prefix_loop.simps) (simp only: if_not_P [OF nw] split: if_splits, blast)
qed

lemma suffix_loop_nonpos:
  "ct \<le> 0 \<Longrightarrow> suffix_loop p1 p2 d ptm ct it i_stop i1 i2 c1 c2 arrs = arrs"
proof (induction p1 p2 d ptm ct it i_stop i1 i2 c1 c2 arrs rule: suffix_loop.induct)
  case (1 p1 p2 d ptm ct it i_stop i1 i2 c1 c2 arrs)
  let ?a1 = "dict_get d (p1 ! nat i1) 0" and ?a2 = "dict_get d (p2 ! nat i2) 0"
  from "1.prems" have nw: "\<not> \<bar>mass_diff (c1 + ?a1) (c2 + ?a2) True\<bar> < ct"
    by simp
  show ?case
    using "1.IH"(2,3) nw "1.prems"
    by (subst suffix_loop.simps) (simp only: if_not_P [OF nw] split: if_splits, blast)
qed

lemma aa_match_nonpos:
  assumes "ct \<le> 0"
  shows "aa_match p1 p2 d ptm ct it mode
           = (zeros (max (length p1) (length p2)), all_true (zeros (max (length p1) (length p2))),
              zeros (max (length p1) (length p2)), zeros (max (length p1) (length p2)))"
  by (simp add: aa_match_def aa_match_prefix_def prefix_loop_nonpos [OF assms]
      suffix_loop_nonpos [OF assms] Let_def)

text \<open>
  Claim C3. Swapping the two peptides leaves the match array and the whole-sequence flag
  unchanged and exchanges the two PTM-match arrays.
\<close>

theorem aa_match_swap:
  "aa_match p2 p1 d ptm ct it mode
     = (case aa_match p1 p2 d ptm ct it mode of
          (aa_matches, pep_match, ptm_matches_1, ptm_matches_2) \<Rightarrow>
            (aa_matches, pep_match, ptm_matches_2, ptm_matches_1))"
proof (cases "0 < ct")
  case False
  then have "ct \<le> 0" by simp
  then show ?thesis
    by (simp add: aa_match_nonpos max.commute)
next
  case True
  let ?n = "max (length p1) (length p2)"
  obtain am pm1 pm2 where
    r: "prefix_loop p1 p2 d ptm ct it 0 0 0 0 (zeros ?n, zeros ?n, zeros ?n) = (am, pm1, pm2)"
    by (cases "prefix_loop p1 p2 d ptm ct it 0 0 0 0 (zeros ?n, zeros ?n, zeros ?n)") auto
  from prefix_loop_swap [OF True, of p2 p1 d ptm it 0 0 0 0 "(zeros ?n, zeros ?n, zeros ?n)"] r
  have r': "prefix_loop p2 p1 d ptm ct it 0 0 0 0 (zeros ?n, zeros ?n, zeros ?n) = (am, pm2, pm1)"
    by simp
  obtain bm qm1 qm2 where
    s: "suffix_loop p1 p2 d ptm ct it (hd (argwhere_not am))
          (int (length p1) - 1) (int (length p2) - 1) 0 0 (am, pm1, pm2) = (bm, qm1, qm2)"
    by (cases "suffix_loop p1 p2 d ptm ct it (hd (argwhere_not am))
          (int (length p1) - 1) (int (length p2) - 1) 0 0 (am, pm1, pm2)") auto
  from suffix_loop_swap [OF True, of p2 p1 d ptm it "hd (argwhere_not am)"
      "int (length p2) - 1" "int (length p1) - 1" 0 0 "(am, pm1, pm2)"] s
  have s': "suffix_loop p2 p1 d ptm ct it (hd (argwhere_not am))
          (int (length p2) - 1) (int (length p1) - 1) 0 0 (am, pm2, pm1) = (bm, qm2, qm1)"
    by simp
  have m: "max (length p2) (length p1) = ?n" by (simp add: max.commute)
  show ?thesis
    by (simp add: aa_match_def aa_match_prefix_def m r r' s s' Let_def)
qed

text \<open>
  A deamidated residue against an isobaric plain one: the match array and the flag agree,
  the PTM-match arrays change places.
\<close>

theorem aa_match_swap_witness:
  "aa_match [''N(+.98)''] [''D'']
       [(''N(+.98)'', 115.02695), (''D'', 115.02694)] [''N(+.98)''] (1/2) (1/10) ''best''
     = ([True], True, [True], [False])
   \<and> aa_match [''D''] [''N(+.98)'']
       [(''N(+.98)'', 115.02695), (''D'', 115.02694)] [''N(+.98)''] (1/2) (1/10) ''best''
     = ([True], True, [False], [True])"
proof -
  have e: "aa_match [''N(+.98)''] [''D'']
       [(''N(+.98)'', 115.02695), (''D'', 115.02694)] [''N(+.98)''] (1/2) (1/10) ''best''
     = ([True], True, [True], [False])"
    by code_simp
  from aa_match_swap [of "[''D'']" "[''N(+.98)'']"
      "[(''N(+.98)'', 115.02695), (''D'', 115.02694)]" "[''N(+.98)'']" "1/2" "1/10" "''best''"] e
  show ?thesis by simp
qed

subsection \<open>Tolerances and metric bounds\<close>

lemma fst_commit:
  "fst (commit ptm it idx a1 a2 t1 t2 arrs) = (fst arrs)[idx := \<bar>a1 - a2\<bar> < it]"
  by (cases arrs) (simp add: commit_def mass_diff_def Let_def)

lemma prefix_loop_mono:
  "it \<le> it' \<Longrightarrow> list_all2 (\<longrightarrow>) (fst arrs) (fst arrs') \<Longrightarrow>
   list_all2 (\<longrightarrow>) (fst (prefix_loop p1 p2 d ptm ct it i1 i2 c1 c2 arrs))
                  (fst (prefix_loop p1 p2 d ptm ct it' i1 i2 c1 c2 arrs'))"
proof (induction p1 p2 d ptm ct it i1 i2 c1 c2 arrs arbitrary: arrs' rule: prefix_loop.induct)
  case (1 p1 p2 d ptm ct it i1 i2 c1 c2 arrs)
  let ?a1 = "dict_get d (p1 ! i1) 0" and ?a2 = "dict_get d (p2 ! i2) 0"
  note L = prefix_loop.simps [of p1 p2 d ptm ct it i1 i2 c1 c2 arrs]
  note R = prefix_loop.simps [of p1 p2 d ptm ct it' i1 i2 c1 c2 arrs']
  show ?case
  proof (cases "i1 < length p1 \<and> i2 < length p2")
    case False
    have "prefix_loop p1 p2 d ptm ct it i1 i2 c1 c2 arrs = arrs"
      by (subst L) (simp only: if_not_P [OF False])
    moreover have "prefix_loop p1 p2 d ptm ct it' i1 i2 c1 c2 arrs' = arrs'"
      by (subst R) (simp only: if_not_P [OF False])
    ultimately show ?thesis using "1.prems"(2) by simp
  next
    case guard: True
    show ?thesis
    proof (cases "\<bar>mass_diff (c1 + ?a1) (c2 + ?a2) True\<bar> < ct")
      case True
      let ?c = "commit ptm it (max i1 i2) ?a1 ?a2 (p1 ! i1) (p2 ! i2) arrs"
      let ?c' = "commit ptm it' (max i1 i2) ?a1 ?a2 (p1 ! i1) (p2 ! i2) arrs'"
      have l: "prefix_loop p1 p2 d ptm ct it i1 i2 c1 c2 arrs
            = prefix_loop p1 p2 d ptm ct it (i1 + 1) (i2 + 1) (c1 + ?a1) (c2 + ?a2) ?c"
        by (subst L) (simp only: if_P [OF guard] if_P [OF True])
      have r: "prefix_loop p1 p2 d ptm ct it' i1 i2 c1 c2 arrs'
            = prefix_loop p1 p2 d ptm ct it' (i1 + 1) (i2 + 1) (c1 + ?a1) (c2 + ?a2) ?c'"
        by (subst R) (simp only: if_P [OF guard] if_P [OF True])
      have "(\<bar>?a1 - ?a2\<bar> < it) \<longrightarrow> (\<bar>?a1 - ?a2\<bar> < it')"
        using "1.prems"(1) by simp
      with "1.prems"(2) have "list_all2 (\<longrightarrow>) (fst ?c) (fst ?c')"
        by (simp only: fst_commit) (rule list_all2_update_cong)
      from "1.IH"(1) [OF guard True "1.prems"(1) this] show ?thesis
        by (simp only: l r)
    next
      case nw: False
      show ?thesis
      proof (cases "c2 + ?a2 > c1 + ?a1")
        case True
        have l: "prefix_loop p1 p2 d ptm ct it i1 i2 c1 c2 arrs
              = prefix_loop p1 p2 d ptm ct it (i1 + 1) i2 (c1 + ?a1) c2 arrs"
          by (subst L) (simp only: if_P [OF guard] if_not_P [OF nw] if_P [OF True])
        have r: "prefix_loop p1 p2 d ptm ct it' i1 i2 c1 c2 arrs'
              = prefix_loop p1 p2 d ptm ct it' (i1 + 1) i2 (c1 + ?a1) c2 arrs'"
          by (subst R) (simp only: if_P [OF guard] if_not_P [OF nw] if_P [OF True])
        from "1.IH"(2) [OF guard nw True "1.prems"] show ?thesis
          by (simp only: l r)
      next
        case False
        have l: "prefix_loop p1 p2 d ptm ct it i1 i2 c1 c2 arrs
              = prefix_loop p1 p2 d ptm ct it i1 (i2 + 1) c1 (c2 + ?a2) arrs"
          by (subst L) (simp only: if_P [OF guard] if_not_P [OF nw] if_not_P [OF False])
        have r: "prefix_loop p1 p2 d ptm ct it' i1 i2 c1 c2 arrs'
              = prefix_loop p1 p2 d ptm ct it' i1 (i2 + 1) c1 (c2 + ?a2) arrs'"
          by (subst R) (simp only: if_P [OF guard] if_not_P [OF nw] if_not_P [OF False])
        from "1.IH"(3) [OF guard nw False "1.prems"] show ?thesis
          by (simp only: l r)
      qed
    qed
  qed
qed

lemma count_true_mono:
  "list_all2 (\<longrightarrow>) a b \<Longrightarrow> count_true a \<le> count_true b"
  by (induction rule: list_all2_induct) (auto simp: count_true_def)

lemma fst_aa_match_prefix:
  "fst (aa_match_prefix p1 p2 d ptm ct it)
     = fst (prefix_loop p1 p2 d ptm ct it 0 0 0 0
              (zeros (max (length p1) (length p2)), zeros (max (length p1) (length p2)),
               zeros (max (length p1) (length p2))))"
  by (simp add: aa_match_prefix_def Let_def split: prod.splits)

text \<open>
  Claim C2, as amended. For fixed peptides, table, PTM set and cumulative tolerance,
  raising the individual tolerance never decreases the number of true entries of the
  match array that the prefix pass \<open>aa_match_prefix\<close> returns.
\<close>

theorem prefix_match_count_mono:
  assumes "it \<le> it'"
  shows "count_true (fst (aa_match_prefix p1 p2 d ptm ct it))
           \<le> count_true (fst (aa_match_prefix p1 p2 d ptm ct it'))"
proof -
  let ?z = "zeros (max (length p1) (length p2))"
  have "list_all2 (\<longrightarrow>) (fst (?z, ?z, ?z)) (fst (?z, ?z, ?z))"
    by (simp add: list_all2_same)
  from prefix_loop_mono [OF assms this] show ?thesis
    by (simp only: fst_aa_match_prefix) (rule count_true_mono)
qed

text \<open>Raising the individual tolerance from 0.1 to 1.5 takes the count from 1 to 2.\<close>

theorem prefix_match_count_mono_witness:
  "(1/10 :: real) \<le> 3/2
   \<and> count_true (fst (aa_match_prefix [''A'', ''A''] [''B'', ''A'', ''A'', ''A'']
         [(''A'', 1), (''B'', 2), (''C'', 3)] [] (3/2) (1/10))) = 1
   \<and> count_true (fst (aa_match_prefix [''A'', ''A''] [''B'', ''A'', ''A'', ''A'']
         [(''A'', 1), (''B'', 2), (''C'', 3)] [] (3/2) (3/2))) = 2"
proof -
  have a: "count_true (fst (aa_match_prefix [''A'', ''A''] [''B'', ''A'', ''A'', ''A'']
         [(''A'', 1), (''B'', 2), (''C'', 3)] [] (3/2) (1/10))) = 1"
    by code_simp
  have b: "count_true (fst (aa_match_prefix [''A'', ''A''] [''B'', ''A'', ''A'', ''A'']
         [(''A'', 1), (''B'', 2), (''C'', 3)] [] (3/2) (3/2))) = 2"
    by code_simp
  have h: "(1/10 :: real) \<le> 3/2" by simp
  from prefix_match_count_mono [OF h, of "[''A'', ''A'']" "[''B'', ''A'', ''A'', ''A'']"
      "[(''A'', 1), (''B'', 2), (''C'', 3)]" "[]" "3/2"] a b h
  show ?thesis by simp
qed

text \<open>
  Claim C2 as stated fails for \<open>aa_match\<close>: raising the cumulative tolerance from 0.5 to 1.5
  takes the count from 2 to 1, and raising the individual tolerance from 0.5 to 1.5 takes it
  from 3 to 2. The prefix pass alone is not monotone in the cumulative tolerance either.
\<close>

theorem tolerance_monotonicity_counterexample:
  "count_true (fst (aa_match [''B'', ''C''] [''A'', ''A'', ''C'', ''C'']
       [(''A'', 1), (''B'', 2), (''C'', 3)] [] (3/2) (1/2) ''best''))
     < count_true (fst (aa_match [''B'', ''C''] [''A'', ''A'', ''C'', ''C'']
       [(''A'', 1), (''B'', 2), (''C'', 3)] [] (1/2) (1/2) ''best''))
   \<and> count_true (fst (aa_match [''A'', ''A''] [''B'', ''A'', ''A'', ''A'']
       [(''A'', 1), (''B'', 2), (''C'', 3)] [] (3/2) (3/2) ''best''))
     < count_true (fst (aa_match [''A'', ''A''] [''B'', ''A'', ''A'', ''A'']
       [(''A'', 1), (''B'', 2), (''C'', 3)] [] (3/2) (1/2) ''best''))
   \<and> count_true (fst (aa_match_prefix [''H'', ''C'', ''B'', ''B''] [''C'', ''H'', ''C'', ''H'']
       [(''B'', 2), (''C'', 3), (''H'', 8)] [] 6 (3/2)))
     < count_true (fst (aa_match_prefix [''H'', ''C'', ''B'', ''B''] [''C'', ''H'', ''C'', ''H'']
       [(''B'', 2), (''C'', 3), (''H'', 8)] [] (7/2) (3/2)))"
  by code_simp

text \<open>
  Claim C6 fails on the code. The backward pass can set a flag at an index where the forward
  pass has already counted the same predicted token, so the match array of a pair can hold
  more true entries than the prediction has tokens. For truth \<open>G G M(+15.99) N M(+15.99)\<close>
  and prediction \<open>N M(+15.99)\<close> the array has three true entries for two predicted
  tokens; with a second, exactly matching pair the batch has \<open>aa_precision\<close> and
  \<open>ptm_precision\<close> above 1.
\<close>

theorem precision_above_one:
  "aa_match_batch [Str ''GGM(+15.99)NM(+15.99)'', Str ''A''] [Str ''NM(+15.99)'', Str ''A'']
       [(''G'', 57.02146), (''N'', 114.04293), (''M(+15.99)'', 147.0354), (''A'', 71.03711)]
       [''M(+15.99)''] 0.5 0.1 ''best''
     = Inr \<lparr>aa_matches_batch =
              [([False, False, True, True, True], False,
                [False, False, True, False, True], [False, False, True, False, True]),
               ([True], True, [False], [False])],
            n_aa1 = 6, n_aa2 = 3, n_ptm_1 = 2, n_ptm_2 = 1\<rparr>
   \<and> metrics_of_tally
        \<lparr>aa_matches_batch =
              [([False, False, True, True, True], False,
                [False, False, True, False, True], [False, False, True, False, True]),
               ([True], True, [False], [False])],
            n_aa1 = 6, n_aa2 = 3, n_ptm_1 = 2, n_ptm_2 = 1\<rparr> [0.9, 0.8]
     = Inr \<lparr>aa_precision = 400000000 / 300000001,
             aa_recall = 400000000 / 600000001,
             pep_precision = 100000000 / 200000001,
             ptm_recall = 200000000 / 200000001,
             ptm_precision = 200000000 / 100000001,
             curve_auc = 1 / 8\<rparr>
   \<and> (1 :: real) < 400000000 / 300000001 \<and> (1 :: real) < 200000000 / 100000001"
  by code_simp

subsection \<open>The tokenizer and the greedy longest-match segmentation\<close>

lemma match_at_None: "match_at alts s = None \<longleftrightarrow> (\<forall>k \<in> set alts. \<not> prefix k s)"
  by (induction alts) auto

lemma match_at_Some:
  "sorted (map (\<lambda>k. - int (length k)) alts) \<Longrightarrow> match_at alts s = Some k \<Longrightarrow>
   k \<in> set alts \<and> prefix k s \<and> (\<forall>k' \<in> set alts. prefix k' s \<longrightarrow> length k' \<le> length k)"
proof (induction alts)
  case Nil
  then show ?case by simp
next
  case (Cons a as)
  show ?case
  proof (cases "prefix a s")
    case True
    with Cons.prems show ?thesis by auto
  next
    case False
    with Cons show ?thesis by auto
  qed
qed

lemma longest_match_length_Max:
  "longest_match_length keys s = Max (insert 0 (length ` {k \<in> set keys. prefix k s}))"
proof -
  have "fold max (map length (filter (\<lambda>k. prefix k s) keys)) 0
          = Max (set (0 # map length (filter (\<lambda>k. prefix k s) keys)))"
    by (simp only: Max.set_eq_fold)
  then show ?thesis by (simp add: longest_match_length_def)
qed

lemma set_regex_alternatives: "set (regex_alternatives d) = set (dict_keys d)"
  by (simp add: regex_alternatives_def)

lemma sorted_regex_alternatives:
  "sorted (map (\<lambda>k. - int (length k)) (regex_alternatives d))"
  by (simp add: regex_alternatives_def)

lemma longest_None:
  assumes "match_at (regex_alternatives d) s = None"
  shows "longest_match_length (dict_keys d) s = 0"
proof -
  from assms have "{k \<in> set (dict_keys d). prefix k s} = {}"
    by (auto simp: match_at_None set_regex_alternatives)
  then have "insert 0 (length ` {k \<in> set (dict_keys d). prefix k s}) = {0}"
    by (simp only: image_empty)
  then show ?thesis by (simp only: longest_match_length_Max Max_singleton)
qed

lemma longest_Some:
  assumes "match_at (regex_alternatives d) s = Some k"
  shows "longest_match_length (dict_keys d) s = length k \<and> take (length k) s = k"
proof -
  from match_at_Some [OF sorted_regex_alternatives assms]
  have k: "k \<in> set (dict_keys d)" "prefix k s"
    and m: "\<forall>k' \<in> set (dict_keys d). prefix k' s \<longrightarrow> length k' \<le> length k"
    by (simp_all add: set_regex_alternatives)
  let ?S = "insert 0 (length ` {k \<in> set (dict_keys d). prefix k s})"
  have "Max ?S = length k"
  proof (rule Max_eqI)
    show "finite ?S" by simp
    show "length k \<in> ?S" using k by auto
    show "\<And>y. y \<in> ?S \<Longrightarrow> y \<le> length k" using m by auto
  qed
  moreover from k(2) have "take (length k) s = k"
    by (auto simp: prefix_def)
  ultimately show ?thesis by (simp add: longest_match_length_Max)
qed

lemma findall_greedy:
  "filter (\<lambda>part. part \<noteq> []) (findall (regex_alternatives d) s)
     = fst (greedy_segment (dict_keys d) s)"
proof (induction s rule: length_induct)
  case (1 s)
  let ?alts = "regex_alternatives d" and ?keys = "dict_keys d"
  note F = findall.simps [of ?alts s]
  note G = greedy_segment.simps [of ?keys s]
  show ?case
  proof (cases s)
    case Nil
    have "match_at ?alts [] = None \<or> match_at ?alts [] = Some []"
    proof (cases "match_at ?alts []")
      case None then show ?thesis by simp
    next
      case (Some k)
      from longest_Some [OF Some] show ?thesis using Some by simp
    qed
    then have "filter (\<lambda>part. part \<noteq> []) (findall ?alts []) = []"
    proof
      assume "match_at ?alts [] = None"
      then show ?thesis by (subst findall.simps) (simp only: option.case list.case filter.simps)
    next
      assume "match_at ?alts [] = Some []"
      then show ?thesis
        by (subst findall.simps) (simp only: option.case list.case if_True, simp)
    qed
    moreover have "fst (greedy_segment ?keys []) = []"
      by (subst greedy_segment.simps) simp
    ultimately show ?thesis using Nil by simp
  next
    case (Cons c cs)
    have IHcs: "filter (\<lambda>part. part \<noteq> []) (findall ?alts cs) = fst (greedy_segment ?keys cs)"
      using 1 Cons by simp
    show ?thesis
    proof (cases "match_at ?alts s")
      case None
      have "findall ?alts s = findall ?alts cs"
        by (subst F) (simp only: None option.case, simp only: Cons list.case)
      moreover from longest_None [OF None]
      have "fst (greedy_segment ?keys s) = fst (greedy_segment ?keys cs)"
        by (subst G) (simp add: Cons case_prod_beta)
      ultimately show ?thesis using IHcs by simp
    next
      case (Some k)
      note lk = longest_Some [OF Some]
      show ?thesis
      proof (cases "k = []")
        case True
        have "findall ?alts s = [] # findall ?alts cs"
          by (subst F) (simp only: Some True option.case, simp add: Cons)
        moreover from lk True
        have "fst (greedy_segment ?keys s) = fst (greedy_segment ?keys cs)"
          by (subst G) (simp add: Cons case_prod_beta)
        ultimately show ?thesis using IHcs by simp
      next
        case False
        have f: "findall ?alts s = k # findall ?alts (drop (length k) s)"
          by (subst F) (simp only: Some option.case if_not_P [OF False])
        from False Cons have "length (drop (length k) s) < length s" by simp
        with 1 have IHd: "filter (\<lambda>part. part \<noteq> []) (findall ?alts (drop (length k) s))
                          = fst (greedy_segment ?keys (drop (length k) s))"
          by blast
        from lk False Cons
        have "fst (greedy_segment ?keys s) = k # fst (greedy_segment ?keys (drop (length k) s))"
          by (subst G) (simp add: case_prod_beta)
        with f IHd False show ?thesis by simp
      qed
    qed
  qed
qed

lemma greedy_segment_length:
  "length (concat (fst (greedy_segment keys s))) + length (snd (greedy_segment keys s))
     = length s"
proof (induction keys s rule: greedy_segment.induct)
  case (1 keys s)
  note G = greedy_segment.simps [of keys s]
  show ?case
  proof (cases "s = []")
    case True
    then show ?thesis by (subst G, subst G) simp
  next
    case ne: False
    show ?thesis
    proof (cases "longest_match_length keys s = 0")
      case True
      from "1.IH"(1) [OF ne True] ne True show ?thesis
        by (subst G, subst G) (simp add: case_prod_beta)
    next
      case False
      from "1.IH"(2) [OF ne False] ne False show ?thesis
        by (subst G, subst G) (simp add: case_prod_beta)
    qed
  qed
qed

lemma greedy_segment_consumed:
  "snd (greedy_segment keys s) = [] \<Longrightarrow> concat (fst (greedy_segment keys s)) = s"
proof (induction keys s rule: greedy_segment.induct)
  case (1 keys s)
  note G = greedy_segment.simps [of keys s]
  show ?case
  proof (cases "s = []")
    case True
    then show ?thesis by (subst G) simp
  next
    case ne: False
    show ?thesis
    proof (cases "longest_match_length keys s = 0")
      case True
      from "1.prems" ne True have False
        by (subst (asm) G) (simp add: case_prod_beta)
      then show ?thesis ..
    next
      case False
      from "1.prems" ne False
      have "snd (greedy_segment keys (drop (longest_match_length keys s) s)) = []"
        by (subst (asm) G) (simp add: case_prod_beta)
      from "1.IH"(2) [OF ne False this] ne False show ?thesis
        by (subst G) (simp add: case_prod_beta)
    qed
  qed
qed

lemma greedy_segment_iff:
  "concat (fst (greedy_segment keys s)) = s \<longleftrightarrow> snd (greedy_segment keys s) = []"
proof
  assume "concat (fst (greedy_segment keys s)) = s"
  then have "length (concat (fst (greedy_segment keys s))) = length s" by simp
  with greedy_segment_length [of keys s] show "snd (greedy_segment keys s) = []" by simp
qed (rule greedy_segment_consumed)

lemma split_peptide_greedy:
  "split_peptide peptide d =
     (if snd (greedy_segment (dict_keys d) peptide) = []
      then Inr (fst (greedy_segment (dict_keys d) peptide))
      else Inl (TokenizationError peptide))"
proof (cases "snd (greedy_segment (dict_keys d) peptide) = []")
  case True
  then have "concat (fst (greedy_segment (dict_keys d) peptide)) = peptide"
    by (rule greedy_segment_consumed)
  with True show ?thesis
    by (simp only: split_peptide_def Let_def findall_greedy) simp
next
  case False
  then have "concat (fst (greedy_segment (dict_keys d) peptide)) \<noteq> peptide"
    by (simp only: greedy_segment_iff not_False_eq_True)
  with False show ?thesis
    by (simp only: split_peptide_def Let_def findall_greedy) simp
qed

text \<open>
  Claim C7. The tokenizer either returns tokens whose concatenation is the input string,
  and they are the tokens of the greedy longest-match segmentation, or it raises the
  tokenization error; it raises if and only if that segmentation leaves some character of
  the input unconsumed.
\<close>

theorem split_peptide_roundtrip_or_error:
  "(\<forall>parts. split_peptide peptide d = Inr parts \<longrightarrow>
      concat parts = peptide \<and> parts = fst (greedy_segment (dict_keys d) peptide))
   \<and> ((\<exists>e. split_peptide peptide d = Inl e) \<longleftrightarrow>
        snd (greedy_segment (dict_keys d) peptide) \<noteq> [])
   \<and> (\<forall>e. split_peptide peptide d = Inl e \<longrightarrow> e = TokenizationError peptide)"
proof (cases "snd (greedy_segment (dict_keys d) peptide) = []")
  case True
  from greedy_segment_consumed [OF True] True show ?thesis
    by (simp add: split_peptide_greedy)
next
  case False
  then show ?thesis
    by (simp add: split_peptide_greedy)
qed

text \<open>A string that decomposes, with a modified residue, and one with a foreign character.\<close>

theorem split_peptide_roundtrip_or_error_witness:
  "split_peptide ''AM(+15.99)B'' [(''A'', 71), (''M'', 131), (''M(+15.99)'', 147), (''B'', 114)]
     = Inr [''A'', ''M(+15.99)'', ''B'']
   \<and> concat [''A'', ''M(+15.99)'', ''B''] = ''AM(+15.99)B''
   \<and> split_peptide ''AXB'' [(''A'', 71), (''M'', 131), (''M(+15.99)'', 147), (''B'', 114)]
     = Inl (TokenizationError ''AXB'')
   \<and> snd (greedy_segment (dict_keys [(''A'', 71), (''M'', 131), (''M(+15.99)'', 147), (''B'', 114)])
        ''AXB'') \<noteq> []"
proof -
  have a: "split_peptide ''AM(+15.99)B'' [(''A'', 71), (''M'', 131), (''M(+15.99)'', 147), (''B'', 114)]
     = Inr [''A'', ''M(+15.99)'', ''B'']"
    by code_simp
  have b: "split_peptide ''AXB'' [(''A'', 71), (''M'', 131), (''M(+15.99)'', 147), (''B'', 114)]
     = Inl (TokenizationError ''AXB'')"
    by code_simp
  from split_peptide_roundtrip_or_error [of "''AM(+15.99)B''"
      "[(''A'', 71), (''M'', 131), (''M(+15.99)'', 147), (''B'', 114)]"] a
  have c: "concat [''A'', ''M(+15.99)'', ''B''] = ''AM(+15.99)B''"
    by blast
  from split_peptide_roundtrip_or_error [of "''AXB''"
      "[(''A'', 71), (''M'', 131), (''M(+15.99)'', 147), (''B'', 114)]"] b
  have e: "snd (greedy_segment
                  (dict_keys [(''A'', 71), (''M'', 131), (''M(+15.99)'', 147), (''B'', 114)])
                  ''AXB'') \<noteq> []"
    by blast
  from a b c e show ?thesis by (intro conjI)
qed

end
